theory Spec2Isabelle
  imports Main
begin

section \<open>JSON values and Python errors\<close>

text \<open>
  The course catalog is whatever \<^verbatim>\<open>json.load\<close> returns: lists, dicts, strings, integers,
  booleans and \<^verbatim>\<open>None\<close>. A dict is an association list in insertion order (the order
  \<^verbatim>\<open>dict.items()\<close> and \<^verbatim>\<open>json.dump\<close> iterate in); Python keeps its keys unique.
  Strings are lists of 8-bit characters, each standing for the code point of the same value,
  so the model covers text below code point 256.

  Exceptions are values of type \<open>error\<close>. \<open>Unmodelled\<close> is not a Python exception: it marks
  the inputs the model does not follow Python on (a number with a fraction or an exponent,
  \<^verbatim>\<open>NaN\<close>, \<^verbatim>\<open>Infinity\<close>, which Python reads as floats, and a \<^verbatim>\<open>\uXXXX\<close> escape of a code
  point above 255), so that no result is invented for them.
\<close>

datatype json =
    JNull
  | JBool bool
  | JInt int
  | JStr string
  | JArr "json list"
  | JObj "(string \<times> json) list"

datatype error = JSONDecodeError | KeyError string | TypeError | AttributeError | Unmodelled

section \<open>Writing JSON: \<^verbatim>\<open>json.dump(obj, file, indent=4)\<close>\<close>

text \<open>
  The standard library's encoder with its defaults and \<^verbatim>\<open>indent=4\<close>: ASCII-only output
  (\<^verbatim>\<open>encode_basestring_ascii\<close>), item separator \<^verbatim>\<open>,\<close> followed by a newline and the
  indentation, key separator \<^verbatim>\<open>: \<close>, empty containers written as \<^verbatim>\<open>[]\<close> and \<^verbatim>\<open>{}\<close>.
\<close>

abbreviation DQ :: char where "DQ \<equiv> CHR 0x22"
abbreviation BSL :: char where "BSL \<equiv> CHR 0x5C"
abbreviation LF :: char where "LF \<equiv> CHR 0x0A"

fun join :: "'a list \<Rightarrow> 'a list list \<Rightarrow> 'a list" where
  "join sep [] = []"
| "join sep [x] = x"
| "join sep (x # y # ys) = x @ sep @ join sep (y # ys)"

definition hex_digit :: "nat \<Rightarrow> char" where
  "hex_digit n = ''0123456789abcdef'' ! n"

definition escape_char :: "char \<Rightarrow> string" where
  "escape_char c =
     (if c = BSL then [BSL, BSL]
      else if c = DQ then [BSL, DQ]
      else if c = CHR 0x08 then [BSL, CHR ''b'']
      else if c = CHR 0x0C then [BSL, CHR ''f'']
      else if c = LF then [BSL, CHR ''n'']
      else if c = CHR 0x0D then [BSL, CHR ''r'']
      else if c = CHR 0x09 then [BSL, CHR ''t'']
      else if (0x20::nat) \<le> of_char c \<and> of_char c \<le> (0x7E::nat) then [c]
      else [BSL, CHR ''u'', CHR ''0'', CHR ''0'',
            hex_digit (of_char c div 16), hex_digit (of_char c mod 16)])"

definition encode_basestring_ascii :: "string \<Rightarrow> string" where
  "encode_basestring_ascii s = DQ # concat (map escape_char s) @ [DQ]"

fun dec :: "nat \<Rightarrow> string" where
  "dec n = (if n < 10 then [char_of (48 + n)] else dec (n div 10) @ [char_of (48 + n mod 10)])"

declare dec.simps [simp del]

definition int_repr :: "int \<Rightarrow> string" where
  "int_repr i = (if i < 0 then CHR ''-'' # dec (nat (- i)) else dec (nat i))"

definition newline_indent :: "nat \<Rightarrow> string" where
  "newline_indent level = LF # replicate (4 * level) CHR '' ''"

fun iterencode :: "nat \<Rightarrow> json \<Rightarrow> string" where
  "iterencode level JNull = ''null''"
| "iterencode level (JBool b) = (if b then ''true'' else ''false'')"
| "iterencode level (JInt i) = int_repr i"
| "iterencode level (JStr s) = encode_basestring_ascii s"
| "iterencode level (JArr lst) =
     (if lst = [] then ''[]''
      else ''['' @ newline_indent (level + 1)
           @ join ('','' @ newline_indent (level + 1)) (map (iterencode (level + 1)) lst)
           @ newline_indent level @ '']'')"
| "iterencode level (JObj dct) =
     (if dct = [] then ''{}''
      else ''{'' @ newline_indent (level + 1)
           @ join ('','' @ newline_indent (level + 1))
               (map (\<lambda>(key, v). encode_basestring_ascii key @ '': '' @ iterencode (level + 1) v) dct)
           @ newline_indent level @ ''}'')"

text \<open>The text of one item of a dict, as \<open>iterencode\<close> writes it.\<close>

abbreviation item_text :: "nat \<Rightarrow> string \<times> json \<Rightarrow> string" where
  "item_text l \<equiv> (\<lambda>(key, v). encode_basestring_ascii key @ '': '' @ iterencode l v)"

definition json_dumps :: "json \<Rightarrow> string" where
  "json_dumps obj = iterencode 0 obj"

section \<open>Reading JSON: \<^verbatim>\<open>json.load(file)\<close>\<close>

text \<open>
  The standard library's decoder on the text of the file: \<^verbatim>\<open>scanstring\<close> in strict mode,
  the number pattern \<^verbatim>\<open>(-?(?:0|[1-9][0-9]*))(\.[0-9]+)?([eE][-+]?[0-9]+)?\<close>,
  \<^verbatim>\<open>scan_once\<close>, \<^verbatim>\<open>JSONArray\<close> and \<^verbatim>\<open>JSONObject\<close>. An index into the text becomes the
  suffix that starts there. The loops of \<^verbatim>\<open>JSONArray\<close> and \<^verbatim>\<open>JSONObject\<close> are the recursive
  calls of the functions of the same name, which carry the values read so far.
\<close>

definition is_ws :: "char \<Rightarrow> bool" where
  "is_ws c \<longleftrightarrow> c = CHR '' '' \<or> c = CHR 0x09 \<or> c = LF \<or> c = CHR 0x0D"

definition skip_ws :: "string \<Rightarrow> string" where
  "skip_ws s = dropWhile is_ws s"

definition is_digit :: "char \<Rightarrow> bool" where
  "is_digit c \<longleftrightarrow> (48::nat) \<le> of_char c \<and> of_char c \<le> (57::nat)"

definition hex_value :: "char \<Rightarrow> nat option" where
  "hex_value c =
     (let n = of_char c :: nat in
      if 48 \<le> n \<and> n \<le> 57 then Some (n - 48)
      else if 97 \<le> n \<and> n \<le> 102 then Some (n - 87)
      else if 65 \<le> n \<and> n \<le> 70 then Some (n - 55)
      else None)"

fun decode_uXXXX :: "string \<Rightarrow> nat option" where
  "decode_uXXXX [a, b, c, d] =
     (case (hex_value a, hex_value b, hex_value c, hex_value d) of
        (Some x, Some y, Some z, Some w) \<Rightarrow> Some (((x * 16 + y) * 16 + z) * 16 + w)
      | _ \<Rightarrow> None)"
| "decode_uXXXX _ = None"

definition backslash :: "char \<Rightarrow> char option" where
  "backslash esc =
     (if esc = DQ then Some DQ
      else if esc = BSL then Some BSL
      else if esc = CHR ''/'' then Some CHR ''/''
      else if esc = CHR ''b'' then Some (CHR 0x08)
      else if esc = CHR ''f'' then Some (CHR 0x0C)
      else if esc = CHR ''n'' then Some LF
      else if esc = CHR ''r'' then Some (CHR 0x0D)
      else if esc = CHR ''t'' then Some (CHR 0x09)
      else None)"

fun scanstring :: "string \<Rightarrow> string \<Rightarrow> error + (string \<times> string)" where
  "scanstring chunks [] = Inl JSONDecodeError"
| "scanstring chunks (c # s) =
     (if c = DQ then Inr (chunks, s)
      else if c = BSL then
        (case s of
           [] \<Rightarrow> Inl JSONDecodeError
         | esc # s1 \<Rightarrow>
             if esc = CHR ''u'' then
               (case s1 of
                  h1 # h2 # h3 # h4 # s2 \<Rightarrow>
                    (case decode_uXXXX [h1, h2, h3, h4] of
                       None \<Rightarrow> Inl JSONDecodeError
                     | Some uni \<Rightarrow>
                         if uni < 256 then scanstring (chunks @ [char_of uni]) s2
                         else Inl Unmodelled)
                | _ \<Rightarrow> Inl JSONDecodeError)
             else
               (case backslash esc of
                  None \<Rightarrow> Inl JSONDecodeError
                | Some ch \<Rightarrow> scanstring (chunks @ [ch]) s1))
      else if of_char c < (0x20::nat) then Inl JSONDecodeError
      else scanstring (chunks @ [c]) s)"

datatype number = Integer int | Float

definition digits_value :: "string \<Rightarrow> nat" where
  "digits_value ds = foldl (\<lambda>n c. 10 * n + (of_char c - 48)) 0 ds"

definition match_integer :: "string \<Rightarrow> (string \<times> string) option" where
  "match_integer s =
     (case s of
        [] \<Rightarrow> None
      | c # r \<Rightarrow>
          if c = CHR ''0'' then Some ([c], r)
          else if is_digit c then Some (c # takeWhile is_digit r, dropWhile is_digit r)
          else None)"

definition match_frac :: "string \<Rightarrow> string option" where
  "match_frac s =
     (case s of
        c # d # r \<Rightarrow>
          if c = CHR ''.'' \<and> is_digit d then Some (dropWhile is_digit r) else None
      | _ \<Rightarrow> None)"

definition match_digits1 :: "string \<Rightarrow> string option" where
  "match_digits1 s =
     (case s of
        d # r \<Rightarrow> if is_digit d then Some (dropWhile is_digit r) else None
      | _ \<Rightarrow> None)"

definition match_exp :: "string \<Rightarrow> string option" where
  "match_exp s =
     (case s of
        e # r \<Rightarrow>
          if e = CHR ''e'' \<or> e = CHR ''E'' then
            (case r of
               sg # r1 \<Rightarrow>
                 if sg = CHR ''-'' \<or> sg = CHR ''+'' then match_digits1 r1 else match_digits1 r
             | [] \<Rightarrow> None)
          else None
      | _ \<Rightarrow> None)"

definition match_number :: "string \<Rightarrow> (number \<times> string) option" where
  "match_number s =
     (let (neg, s1) = (case s of c # r \<Rightarrow> if c = CHR ''-'' then (True, r) else (False, s)
                                | [] \<Rightarrow> (False, s))
      in case match_integer s1 of
           None \<Rightarrow> None
         | Some (ds, s2) \<Rightarrow>
             (case match_frac s2 of
                Some s3 \<Rightarrow>
                  (case match_exp s3 of Some s4 \<Rightarrow> Some (Float, s4) | None \<Rightarrow> Some (Float, s3))
              | None \<Rightarrow>
                  (case match_exp s2 of
                     Some s4 \<Rightarrow> Some (Float, s4)
                   | None \<Rightarrow>
                       Some (Integer (if neg then - int (digits_value ds) else int (digits_value ds)), s2))))"

fun setitem :: "'k \<Rightarrow> 'v \<Rightarrow> ('k \<times> 'v) list \<Rightarrow> ('k \<times> 'v) list" where
  "setitem k v [] = [(k, v)]"
| "setitem k v ((k', v') # d) = (if k' = k then (k, v) # d else (k', v') # setitem k v d)"

fun dict :: "('k \<times> 'v) list \<Rightarrow> ('k \<times> 'v) list \<Rightarrow> ('k \<times> 'v) list" where
  "dict d [] = d"
| "dict d ((k, v) # pairs) = dict (setitem k v d) pairs"

lemma scanstring_length:
  "scanstring chunks s = Inr (str, rest) \<Longrightarrow> length rest < length s"
proof (induction chunks s rule: scanstring.induct)
  case (1 chunks)
  then show ?case by simp
next
  case (2 chunks c s)
  show ?case
  proof (cases "c = DQ")
    case True
    with "2.prems" show ?thesis by simp
  next
    case nq: False
    show ?thesis
    proof (cases "c = BSL")
      case False
      with nq "2.prems" have "scanstring (chunks @ [c]) s = Inr (str, rest)"
        by (simp split: if_splits)
      with "2.IH"(3) nq False "2.prems" have "length rest < length s"
        by (simp split: if_splits)
      then show ?thesis by simp
    next
      case bs: True
      then obtain esc s1 where s: "s = esc # s1"
        using "2.prems" nq by (cases s) auto
      show ?thesis
      proof (cases "esc = CHR ''u''")
        case False
        with "2.prems" nq bs s obtain ch where
          ch: "backslash esc = Some ch" "scanstring (chunks @ [ch]) s1 = Inr (str, rest)"
          by (auto split: option.splits)
        from "2.IH"(2) [OF nq bs s False ch(1)] ch(2) have "length rest < length s1" by simp
        with s show ?thesis by simp
      next
        case u: True
        with "2.prems" nq bs s obtain h1 h2 h3 h4 s2 uni where
          s1: "s1 = h1 # h2 # h3 # h4 # s2" and
          uni: "decode_uXXXX [h1, h2, h3, h4] = Some uni" "uni < 256"
               "scanstring (chunks @ [char_of uni]) s2 = Inr (str, rest)"
          by (auto split: list.splits option.splits if_splits simp del: decode_uXXXX.simps)
        from "2.IH"(1) [OF nq bs s u s1 refl refl refl uni(1) uni(2)] uni(3)
        have "length rest < length s2" by simp
        with s s1 show ?thesis by simp
      qed
    qed
  qed
qed

definition startswith :: "string \<Rightarrow> string \<Rightarrow> bool" where
  "startswith s p \<longleftrightarrow> take (length p) s = p"

function scan_once :: "string \<Rightarrow> error + (json \<times> string)"
  and JSONArray :: "json list \<Rightarrow> string \<Rightarrow> error + (json \<times> string)"
  and JSONObject :: "(string \<times> json) list \<Rightarrow> string \<Rightarrow> error + (json \<times> string)"
where
  "scan_once [] = Inl JSONDecodeError"
| "scan_once (nextchar # s) =
     (if nextchar = DQ then
        (case scanstring [] s of
           Inl e \<Rightarrow> Inl e
         | Inr (str, rest) \<Rightarrow> Inr (JStr str, rest))
      else if nextchar = CHR ''{'' then
        (case skip_ws s of
           [] \<Rightarrow> Inl JSONDecodeError
         | c # s1 \<Rightarrow>
             if c = DQ then JSONObject [] s1
             else if c = CHR ''}'' then Inr (JObj [], s1)
             else Inl JSONDecodeError)
      else if nextchar = CHR ''['' then
        (case skip_ws s of
           [] \<Rightarrow> Inl JSONDecodeError
         | c # s1 \<Rightarrow>
             if c = CHR '']'' then Inr (JArr [], s1)
             else JSONArray [] (c # s1))
      else if startswith (nextchar # s) ''null'' then Inr (JNull, drop 3 s)
      else if startswith (nextchar # s) ''true'' then Inr (JBool True, drop 3 s)
      else if startswith (nextchar # s) ''false'' then Inr (JBool False, drop 4 s)
      else
        (case match_number (nextchar # s) of
           Some (Integer i, rest) \<Rightarrow> Inr (JInt i, rest)
         | Some (Float, rest) \<Rightarrow> Inl Unmodelled
         | None \<Rightarrow>
             if startswith (nextchar # s) ''NaN'' \<or> startswith (nextchar # s) ''Infinity''
                \<or> startswith (nextchar # s) ''-Infinity''
             then Inl Unmodelled
             else Inl JSONDecodeError))"
| "JSONArray values s =
     (case scan_once s of
        Inl e \<Rightarrow> Inl e
      | Inr (v, s1) \<Rightarrow>
          (case skip_ws s1 of
             [] \<Rightarrow> Inl JSONDecodeError
           | c # s2 \<Rightarrow>
               if c = CHR '']'' then Inr (JArr (values @ [v]), s2)
               else if c = CHR '','' then JSONArray (values @ [v]) (skip_ws s2)
               else Inl JSONDecodeError))"
| "JSONObject pairs s =
     (case scanstring [] s of
        Inl e \<Rightarrow> Inl e
      | Inr (key, s1) \<Rightarrow>
          (case skip_ws s1 of
             [] \<Rightarrow> Inl JSONDecodeError
           | c # s2 \<Rightarrow>
               if c \<noteq> CHR '':'' then Inl JSONDecodeError
               else
                 (case scan_once (skip_ws s2) of
                    Inl e \<Rightarrow> Inl e
                  | Inr (v, s3) \<Rightarrow>
                      (case skip_ws s3 of
                         [] \<Rightarrow> Inl JSONDecodeError
                       | c # s4 \<Rightarrow>
                           if c = CHR ''}'' then Inr (JObj (dict [] (pairs @ [(key, v)])), s4)
                           else if c \<noteq> CHR '','' then Inl JSONDecodeError
                           else
                             (case skip_ws s4 of
                                [] \<Rightarrow> Inl JSONDecodeError
                              | c # s5 \<Rightarrow>
                                  if c = DQ then JSONObject (pairs @ [(key, v)]) s5
                                  else Inl JSONDecodeError)))))"
  by pat_completeness auto

lemma length_skip_ws: "length (skip_ws s) \<le> length s"
  by (simp add: skip_ws_def length_dropWhile_le)

lemma skip_ws_Cons_length: "skip_ws s = c # r \<Longrightarrow> length r < length s"
  using length_skip_ws [of s] by simp

lemma length_dropWhile_digits [simp]:
  "length (dropWhile is_digit r) < Suc (length r)"
  "length (dropWhile is_digit r) < Suc (Suc (length r))"
  "length (dropWhile is_digit r) < Suc (Suc (Suc (length r)))"
  using length_dropWhile_le [of is_digit r] by simp_all

lemma match_integer_length: "match_integer s = Some (ds, r) \<Longrightarrow> length r < length s"
  by (auto simp: match_integer_def split: list.splits if_splits)

lemma match_digits1_length: "match_digits1 s = Some r \<Longrightarrow> length r < length s"
  by (auto simp: match_digits1_def split: list.splits if_splits)

lemma match_frac_length: "match_frac s = Some r \<Longrightarrow> length r < length s"
  by (auto simp: match_frac_def split: list.splits if_splits)

lemma match_exp_length: "match_exp s = Some r \<Longrightarrow> length r < length s"
  by (auto simp: match_exp_def split: list.splits if_splits dest!: match_digits1_length)

lemma match_number_length: "match_number s = Some (n, r) \<Longrightarrow> length r < length s"
  unfolding match_number_def
  by (auto split: list.splits if_splits option.splits prod.splits
           dest!: match_integer_length match_frac_length match_exp_length)

lemma scan_length_partial:
  "scan_once_JSONArray_JSONObject_dom (Inl s) \<Longrightarrow>
     scan_once s = Inr (v, rest) \<Longrightarrow> length rest < length s"
  "scan_once_JSONArray_JSONObject_dom (Inr (Inl (values, s'))) \<Longrightarrow>
     JSONArray values s' = Inr (v', rest') \<Longrightarrow> length rest' < length s'"
  "scan_once_JSONArray_JSONObject_dom (Inr (Inr (pairs, s''))) \<Longrightarrow>
     JSONObject pairs s'' = Inr (v'', rest'') \<Longrightarrow> length rest'' < length s''"
proof (induction s and "values" s' and pairs s'' arbitrary: v rest and v' rest' and v'' rest''
       rule: scan_once_JSONArray_JSONObject.pinduct)
  case 1
  then show ?case by (simp add: scan_once.psimps)
next
  case (2 nextchar s)
  note dom = "2.hyps"
  note run = "2.prems" [unfolded scan_once.psimps(2) [OF dom]]
  show ?case
  proof (cases "nextchar = DQ")
    case True
    with run show ?thesis
      by (auto split: sum.splits dest!: scanstring_length)
  next
    case nq: False
    show ?thesis
    proof (cases "nextchar = CHR ''{''")
      case True
      with run nq obtain c s1 where sk: "skip_ws s = c # s1"
        by (auto split: list.splits)
      show ?thesis
      proof (cases "c = DQ")
        case dq: True
        with run nq True sk have "JSONObject [] s1 = Inr (v, rest)" by simp
        from "2.IH"(1) [OF nq True sk dq this] skip_ws_Cons_length [OF sk]
        show ?thesis by simp
      next
        case False
        with run nq True sk skip_ws_Cons_length [OF sk] show ?thesis
          by (auto split: if_splits)
      qed
    next
      case nb: False
      show ?thesis
      proof (cases "nextchar = CHR ''[''")
        case True
        with run nq nb obtain c s1 where sk: "skip_ws s = c # s1"
          by (auto split: list.splits)
        show ?thesis
        proof (cases "c = CHR '']''")
          case True
          with run nq nb \<open>nextchar = CHR ''[''\<close> sk skip_ws_Cons_length [OF sk] show ?thesis
            by auto
        next
          case False
          with run nq nb True sk have "JSONArray [] (c # s1) = Inr (v, rest)" by simp
          from "2.IH"(2) [OF nq nb True sk False this] length_skip_ws [of s] sk
          show ?thesis by simp
        qed
      next
        case False
        with run nq nb show ?thesis
          by (auto split: if_splits option.splits prod.splits number.splits
                   dest!: match_number_length)
      qed
    qed
  qed
next
  case (3 "values" s)
  note dom = "3.hyps"
  note run = "3.prems" [unfolded JSONArray.psimps [OF dom]]
  from run obtain v1 s1 where so: "scan_once s = Inr (v1, s1)"
    by (auto split: sum.splits)
  from "3.IH"(1) [OF so] have l1: "length s1 < length s" .
  from run so obtain c s2 where sk: "skip_ws s1 = c # s2"
    by (auto split: list.splits)
  note l2 = skip_ws_Cons_length [OF sk]
  show ?case
  proof (cases "c = CHR '']''")
    case True
    with run so sk l1 l2 show ?thesis by auto
  next
    case False
    with run so sk have c: "c = CHR '',''" and
      r: "JSONArray (values @ [v1]) (skip_ws s2) = Inr (v', rest')"
      by (auto split: if_splits)
    from "3.IH"(2) [OF so refl sk False c r] length_skip_ws [of s2] l1 l2
    show ?thesis by simp
  qed
next
  case (4 pairs s)
  note dom = "4.hyps"
  note run = "4.prems" [unfolded JSONObject.psimps [OF dom]]
  from run obtain key s1 where ss: "scanstring [] s = Inr (key, s1)"
    by (auto split: sum.splits)
  note l1 = scanstring_length [OF ss]
  from run ss obtain c s2 where sk: "skip_ws s1 = c # s2"
    by (auto split: list.splits)
  note l2 = skip_ws_Cons_length [OF sk]
  from run ss sk have c: "\<not> c \<noteq> CHR '':''"
    by (auto split: if_splits)
  from run ss sk c obtain v1 s3 where so: "scan_once (skip_ws s2) = Inr (v1, s3)"
    by (auto split: sum.splits)
  from "4.IH"(1) [OF ss refl sk c so] have l3: "length s3 < length (skip_ws s2)" .
  from run ss sk c so obtain c' s4 where sk': "skip_ws s3 = c' # s4"
    by (auto split: list.splits)
  note l4 = skip_ws_Cons_length [OF sk']
  show ?case
  proof (cases "c' = CHR ''}''")
    case True
    with run ss sk c so sk' l1 l2 l3 l4 length_skip_ws [of s2] show ?thesis by auto
  next
    case False
    with run ss sk c so sk' have c': "\<not> c' \<noteq> CHR '',''"
      by (auto split: if_splits)
    from run ss sk c so sk' False c' obtain c'' s5 where sk'': "skip_ws s4 = c'' # s5"
      by (auto split: list.splits)
    from run ss sk c so sk' False c' sk'' have dq: "c'' = DQ" and
      r: "JSONObject (pairs @ [(key, v1)]) s5 = Inr (v'', rest'')"
      by (auto split: if_splits)
    from "4.IH"(2) [OF ss refl sk c so refl sk' False c' sk'' dq r]
      l1 l2 l3 l4 length_skip_ws [of s2] skip_ws_Cons_length [OF sk'']
    show ?thesis by simp
  qed
qed

termination scan_once
proof (relation "measure (\<lambda>x. case x of
                    Inl s \<Rightarrow> 2 * length s
                  | Inr (Inl (vs, s)) \<Rightarrow> 2 * length s + 1
                  | Inr (Inr (ps, s)) \<Rightarrow> 2 * length s + 1)", goal_cases)
  case 1
  show ?case by simp
next
  case (2 nextchar s c s1)
  then show ?case using skip_ws_Cons_length [of s c s1] by simp
next
  case (3 nextchar s c s1)
  then show ?case using length_skip_ws [of s] by simp
next
  case (4 "values" s)
  show ?case by simp
next
  case (5 "values" s x v s1 c s2)
  then show ?case
    using scan_length_partial(1) [of s v s1] skip_ws_Cons_length [of s1 c s2]
      length_skip_ws [of s2]
    by simp
next
  case (6 pairs s x key s1 c s2)
  then show ?case
    using scanstring_length [of "[]" s key s1] skip_ws_Cons_length [of s1 c s2]
      length_skip_ws [of s2]
    by simp
next
  case (7 pairs s x key s1 c s2 y v s3 c' s4 c'' s5)
  then show ?case
    using scanstring_length [of "[]" s key s1] skip_ws_Cons_length [of s1 c s2]
      length_skip_ws [of s2] scan_length_partial(1) [of "skip_ws s2" v s3]
      skip_ws_Cons_length [of s3 c' s4] skip_ws_Cons_length [of s4 c'' s5]
    by simp
qed

declare JSONArray.simps [simp del] JSONObject.simps [simp del]

definition json_loads :: "string \<Rightarrow> error + json" where
  "json_loads s =
     (case scan_once (skip_ws s) of
        Inl e \<Rightarrow> Inl e
      | Inr (obj, rest) \<Rightarrow> if skip_ws rest = [] then Inr obj else Inl JSONDecodeError)"

section \<open>The application state and the course file\<close>

text \<open>
  What a request can read or change: the text of \<^verbatim>\<open>COURSE_FILE\<close> (\<open>None\<close> when
  \<^verbatim>\<open>os.path.exists\<close> is false; its directory is taken to exist) and the flash messages
  queued in the session, each with its category. The tracing spans and the log lines have
  no effect on either, nor on the response, and are left out.
\<close>

record state =
  course_file :: "string option"
  flashes :: "(string \<times> string) list"

datatype response =
    Render string "(string \<times> json) list"
  | Redirect string

definition flash :: "string \<Rightarrow> string \<Rightarrow> state \<Rightarrow> state" where
  "flash message category st = st\<lparr>flashes := flashes st @ [(message, category)]\<rparr>"

definition url_for :: "string \<Rightarrow> string" where
  "url_for endpoint =
     (if endpoint = ''index'' then ''/''
      else if endpoint = ''course_catalog'' then ''/catalog''
      else if endpoint = ''add_course'' then ''/add_course''
      else [])"

definition load_courses :: "state \<Rightarrow> (error + json) \<times> state" where
  "load_courses st =
     (case course_file st of
        None \<Rightarrow> (Inr (JArr []), st)
      | Some text \<Rightarrow> (json_loads text, st))"

text \<open>\<^verbatim>\<open>courses.append(data)\<close>: only a list has the method.\<close>

fun append_item :: "json \<Rightarrow> json \<Rightarrow> error + json" where
  "append_item (JArr lst) data = Inr (JArr (lst @ [data]))"
| "append_item _ data = Inl AttributeError"

definition save_courses :: "json \<Rightarrow> state \<Rightarrow> (error + unit) \<times> state" where
  "save_courses data st =
     (case load_courses st of
        (Inl e, st1) \<Rightarrow> (Inl e, st1)
      | (Inr courses, st1) \<Rightarrow>
          (case append_item courses data of
             Inl e \<Rightarrow> (Inl e, st1)
           | Inr courses' \<Rightarrow> (Inr (), st1\<lparr>course_file := Some (json_dumps courses')\<rparr>)))"

section \<open>The course details page\<close>

text \<open>
  \<^verbatim>\<open>next((course for course in courses if course['code'] == code), None)\<close> on whatever
  \<^verbatim>\<open>load_courses\<close> returned: iterating a list gives its elements, a dict its keys, a
  string its characters, anything else raises; \<^verbatim>\<open>course['code']\<close> raises unless the
  element is a dict with that key. The generator is lazy, so an element after the first
  match is never looked at.
\<close>

fun iter :: "json \<Rightarrow> error + json list" where
  "iter (JArr lst) = Inr lst"
| "iter (JObj dct) = Inr (map (\<lambda>(key, v). JStr key) dct)"
| "iter (JStr s) = Inr (map (\<lambda>c. JStr [c]) s)"
| "iter _ = Inl TypeError"

fun getitem :: "json \<Rightarrow> string \<Rightarrow> error + json" where
  "getitem (JObj dct) key =
     (case map_of dct key of None \<Rightarrow> Inl (KeyError key) | Some v \<Rightarrow> Inr v)"
| "getitem _ key = Inl TypeError"

fun next_course :: "json list \<Rightarrow> string \<Rightarrow> error + json" where
  "next_course [] code = Inr JNull"
| "next_course (course # courses) code =
     (case getitem course ''code'' of
        Inl e \<Rightarrow> Inl e
      | Inr v \<Rightarrow> if v = JStr code then Inr course else next_course courses code)"

fun truthy :: "json \<Rightarrow> bool" where
  "truthy JNull = False"
| "truthy (JBool b) = b"
| "truthy (JInt i) = (i \<noteq> 0)"
| "truthy (JStr s) = (s \<noteq> [])"
| "truthy (JArr lst) = (lst \<noteq> [])"
| "truthy (JObj dct) = (dct \<noteq> [])"

abbreviation SQ :: char where "SQ \<equiv> CHR 0x27"

definition course_details :: "string \<Rightarrow> state \<Rightarrow> (error + response) \<times> state" where
  "course_details code st =
     (case load_courses st of
        (Inl e, st1) \<Rightarrow> (Inl e, st1)
      | (Inr courses, st1) \<Rightarrow>
          (case iter courses of
             Inl e \<Rightarrow> (Inl e, st1)
           | Inr items \<Rightarrow>
               (case next_course items code of
                  Inl e \<Rightarrow> (Inl e, st1)
                | Inr course \<Rightarrow>
                    if \<not> truthy course then
                      (Inr (Redirect (url_for ''course_catalog'')),
                       flash (''No course found with code '' @ [SQ] @ code @ [SQ] @ ''.'')
                         ''error'' st1)
                    else (Inr (Render ''course_details.html'' [(''course'', course)]), st1))))"

section \<open>The add-course form\<close>

text \<open>
  \<^verbatim>\<open>request.form[key]\<close> raises a \<^verbatim>\<open>KeyError\<close> (werkzeug's \<^verbatim>\<open>BadRequestKeyError\<close>) for a
  key the submission does not carry; every value it returns is a string. The dict display
  of \<^verbatim>\<open>add_course\<close> evaluates its nine entries in order, so the first absent key raises.
\<close>

definition course_fields :: "string list" where
  "course_fields =
     [''code'', ''name'', ''instructor'', ''semester'', ''schedule'', ''classroom'',
      ''prerequisites'', ''grading'', ''description'']"

fun build_course :: "(string \<rightharpoonup> string) \<Rightarrow> string list \<Rightarrow> error + (string \<times> string) list" where
  "build_course form [] = Inr []"
| "build_course form (key # keys) =
     (case form key of
        None \<Rightarrow> Inl (KeyError key)
      | Some v \<Rightarrow>
          (case build_course form keys of
             Inl e \<Rightarrow> Inl e
           | Inr course \<Rightarrow> Inr ((key, v) # course)))"

definition missing_fields :: "(string \<times> string) list \<Rightarrow> string list" where
  "missing_fields course =
     [field. (field, v) \<leftarrow> course, v = [] \<and> field \<noteq> ''description'']"

definition course_json :: "(string \<times> string) list \<Rightarrow> json" where
  "course_json course = JObj (map (\<lambda>(field, v). (field, JStr v)) course)"

definition add_course :: "string \<Rightarrow> (string \<rightharpoonup> string) \<Rightarrow> state \<Rightarrow> (error + response) \<times> state" where
  "add_course method form st =
     (if method = ''POST'' then
        (case build_course form course_fields of
           Inl e \<Rightarrow> (Inl e, st)
         | Inr course \<Rightarrow>
             if missing_fields course \<noteq> [] then
               (Inr (Redirect (url_for ''add_course'')),
                flash (''Missing fields: '' @ join '', '' (missing_fields course)) ''error'' st)
             else
               (case save_courses (course_json course) st of
                  (Inl e, st1) \<Rightarrow> (Inl e, st1)
                | (Inr u, st1) \<Rightarrow>
                    (case map_of course ''code'' of
                       None \<Rightarrow> (Inl (KeyError ''code''), st1)
                     | Some code \<Rightarrow>
                         (Inr (Redirect (url_for ''course_catalog'')),
                          flash (''Course '' @ [SQ] @ code @ [SQ] @ '' added successfully!'')
                            ''success'' st1))))
      else (Inr (Render ''add_course.html'' []), st))"

section \<open>The words of the specification\<close>

text \<open>
  The specification names the eight required fields as a list of its own, and calls a
  Course a record of the nine fields, each a string: here an object whose keys are the
  nine field names, in any order, and whose values are strings. \<open>required_fields\<close> and
  \<open>is_course\<close> follow those words; nothing in the application computes with them.
\<close>

definition required_fields :: "string list" where
  "required_fields =
     [''code'', ''name'', ''instructor'', ''semester'', ''schedule'', ''classroom'',
      ''prerequisites'', ''grading'']"

fun is_str :: "json \<Rightarrow> bool" where
  "is_str (JStr s) = True"
| "is_str _ = False"

fun is_course :: "json \<Rightarrow> bool" where
  "is_course (JObj dct) =
     (distinct (map fst dct) \<and> set (map fst dct) = set course_fields \<and>
      list_all (\<lambda>item. is_str (snd item)) dct)"
| "is_course _ = False"

section \<open>Values a Python program can hold\<close>

text \<open>
  A Python dict has each key once. \<open>unique_keys\<close> says so of every dict inside a value;
  the values the application builds and the values the decoder returns are of this kind.
  \<open>ends_number\<close> describes the text that may follow an integer without being read as
  part of it.
\<close>

fun unique_keys :: "json \<Rightarrow> bool" where
  "unique_keys (JArr lst) = list_all unique_keys lst"
| "unique_keys (JObj dct) = (distinct (map fst dct) \<and> list_all (\<lambda>item. unique_keys (snd item)) dct)"
| "unique_keys _ = True"

definition ends_number :: "string \<Rightarrow> bool" where
  "ends_number rest \<longleftrightarrow>
     (case rest of
        [] \<Rightarrow> True
      | c # r \<Rightarrow> \<not> is_digit c \<and> c \<noteq> CHR ''.'' \<and> c \<noteq> CHR ''e'' \<and> c \<noteq> CHR ''E'')"

section \<open>Sample data\<close>


definition partial_form :: "string \<rightharpoonup> string" where
  "partial_form =
     map_of [(''code'', ''CS203''), (''name'', ''Systems''), (''instructor'', ''A''),
             (''schedule'', ''MWF''), (''classroom'', ''101''),
             (''prerequisites'', ''none''), (''description'', '''')]"

definition sample_course :: "string \<Rightarrow> string \<Rightarrow> json" where
  "sample_course code name =
     JObj [(''code'', JStr code), (''name'', JStr name), (''instructor'', JStr ''A''),
           (''semester'', JStr ''F24''), (''schedule'', JStr ''MWF''), (''classroom'', JStr ''101''),
           (''prerequisites'', JStr ''none''), (''grading'', JStr ''A-F''), (''description'', JStr '''')]"

lemma is_course_sample [simp]: "is_course (sample_course code name)"
  by (simp add: sample_course_def course_fields_def)

lemma getitem_sample [simp]: "getitem (sample_course code name) ''code'' = Inr (JStr code)"
  by (simp add: sample_course_def)

lemma sample_course_eq [simp]:
  "sample_course c n = sample_course c' n' \<longleftrightarrow> c = c' \<and> n = n'"
  by (auto simp: sample_course_def)

section \<open>Validation of a new course\<close>

lemma missing_fields_filter:
  "missing_fields course = map fst (filter (\<lambda>(field, v). v = [] \<and> field \<noteq> ''description'') course)"
  unfolding missing_fields_def by (induction course) (auto split: if_splits)

lemma build_course_total:
  "\<forall>k \<in> set keys. k \<in> dom form \<Longrightarrow>
     build_course form keys = Inr (map (\<lambda>k. (k, the (form k))) keys)"
  by (induction keys) auto

lemma missing_fields_build:
  "missing_fields (map (\<lambda>k. (k, the (form k))) keys) =
     filter (\<lambda>k. the (form k) = [] \<and> k \<noteq> ''description'') keys"
  unfolding missing_fields_filter by (induction keys) auto

text \<open>
  C1. For a submission that carries all nine fields, the draft is built, and the fields the
  check reports are exactly the required fields whose value is the empty string, in the
  order of the required-field list; the check passes (nothing is reported) if and only if
  every required field is non-empty. The value of \<^verbatim>\<open>description\<close> plays no part.
\<close>

theorem validate_new_course:
  assumes "\<forall>k \<in> set course_fields. k \<in> dom form"
  shows "\<exists>course. build_course form course_fields = Inr course
           \<and> missing_fields course = filter (\<lambda>k. form k = Some []) required_fields
           \<and> (missing_fields course = [] \<longleftrightarrow> (\<forall>k \<in> set required_fields. form k \<noteq> Some []))"
proof -
  let ?course = "map (\<lambda>k. (k, the (form k))) course_fields"
  have b: "build_course form course_fields = Inr ?course"
    using assms by (rule build_course_total)
  have eq: "\<And>k. k \<in> set course_fields \<Longrightarrow> (the (form k) = []) = (form k = Some [])"
    using assms by auto
  have m: "missing_fields ?course = filter (\<lambda>k. form k = Some []) required_fields"
    unfolding missing_fields_build using eq
    by (simp add: course_fields_def required_fields_def)
  have "(filter (\<lambda>k. form k = Some []) required_fields = []) \<longleftrightarrow>
          (\<forall>k \<in> set required_fields. form k \<noteq> Some [])"
    by (simp add: filter_empty_conv)
  with b m show ?thesis by simp
qed

theorem validate_new_course_witness:
  "\<exists>course.
     build_course
       (map_of [(''code'', ''CS203''), (''name'', ''Systems''), (''instructor'', ''''),
                (''semester'', ''F24''), (''schedule'', ''''), (''classroom'', ''101''),
                (''prerequisites'', ''none''), (''grading'', ''A-F''), (''description'', '''')])
       course_fields = Inr course
     \<and> missing_fields course = [''instructor'', ''schedule'']"
  using validate_new_course
    [of "map_of [(''code'', ''CS203''), (''name'', ''Systems''), (''instructor'', ''''),
                (''semester'', ''F24''), (''schedule'', ''''), (''classroom'', ''101''),
                (''prerequisites'', ''none''), (''grading'', ''A-F''), (''description'', '''')]"]
  by (simp add: course_fields_def required_fields_def)

section \<open>Writing and reading back\<close>

subsection \<open>Strings\<close>

lemma hex_values:
  "map hex_value ''0123456789abcdef'' = map Some [0..<16]"
  by (simp add: hex_value_def upt_rec)

lemma hex_value_hex_digit:
  assumes "n < 16"
  shows "hex_value (hex_digit n) = Some n"
proof -
  have "hex_value (''0123456789abcdef'' ! n) = map hex_value ''0123456789abcdef'' ! n"
    using assms by (intro nth_map [symmetric]) simp
  also have "\<dots> = map Some [0..<16] ! n"
    by (simp only: hex_values)
  also have "\<dots> = Some n"
    using assms by simp
  finally show ?thesis by (simp add: hex_digit_def)
qed

lemma decode_uXXXX_escape:
  "decode_uXXXX [CHR ''0'', CHR ''0'', hex_digit (of_char c div 16), hex_digit (of_char c mod 16)]
     = Some (of_char c)"
proof -
  have "(of_char c :: nat) < 256" by simp
  then have "(of_char c :: nat) div 16 < 16" by arith
  then have 1: "hex_value (hex_digit (of_char c div 16)) = Some (of_char c div 16)"
    by (rule hex_value_hex_digit)
  have 2: "hex_value (hex_digit (of_char c mod 16)) = Some (of_char c mod 16)"
    by (rule hex_value_hex_digit) simp
  have 3: "hex_value CHR ''0'' = Some 0" by (simp add: hex_value_def)
  show ?thesis by (simp add: 1 2 3)
qed

lemma scanstring_escape_char:
  "scanstring chunks (escape_char c @ rest) = scanstring (chunks @ [c]) rest"
proof -
  consider (short) "c = BSL \<or> c = DQ \<or> c = CHR 0x08 \<or> c = CHR 0x0C \<or> c = LF
                     \<or> c = CHR 0x0D \<or> c = CHR 0x09"
    | (plain) "c \<noteq> BSL" "c \<noteq> DQ" "(0x20::nat) \<le> of_char c" "of_char c \<le> (0x7E::nat)"
    | (uni) "c \<noteq> BSL" "c \<noteq> DQ" "c \<noteq> CHR 0x08" "c \<noteq> CHR 0x0C" "c \<noteq> LF"
        "c \<noteq> CHR 0x0D" "c \<noteq> CHR 0x09"
        "\<not> ((0x20::nat) \<le> of_char c \<and> of_char c \<le> (0x7E::nat))"
    by blast
  then show ?thesis
  proof cases
    case short
    then show ?thesis
      by (elim disjE) (simp_all add: escape_char_def backslash_def)
  next
    case plain
    then have "escape_char c = [c]"
      by (auto simp: escape_char_def)
    with plain show ?thesis by auto
  next
    case uni
    then have e: "escape_char c = [BSL, CHR ''u'', CHR ''0'', CHR ''0'',
               hex_digit (of_char c div 16), hex_digit (of_char c mod 16)]"
      by (simp add: escape_char_def)
    show ?thesis
      unfolding e using decode_uXXXX_escape [of c]
      by (simp del: decode_uXXXX.simps)
  qed
qed

lemma scanstring_escaped:
  "scanstring chunks (concat (map escape_char s) @ DQ # rest) = Inr (chunks @ s, rest)"
proof (induction s arbitrary: chunks)
  case Nil
  show ?case by simp
next
  case (Cons c s)
  have "scanstring chunks (concat (map escape_char (c # s)) @ DQ # rest)
          = scanstring chunks (escape_char c @ (concat (map escape_char s) @ DQ # rest))"
    by simp
  also have "\<dots> = scanstring (chunks @ [c]) (concat (map escape_char s) @ DQ # rest)"
    by (rule scanstring_escape_char)
  also have "\<dots> = Inr (chunks @ c # s, rest)"
    using Cons.IH [of "chunks @ [c]"] by simp
  finally show ?case .
qed

lemma scanstring_encoded:
  "scanstring [] (tl (encode_basestring_ascii s) @ rest) = Inr (s, rest)"
  using scanstring_escaped [of "[]" s rest] by (simp add: encode_basestring_ascii_def)

subsection \<open>Integers\<close>

lemma digit_char [simp]:
  "d < 10 \<Longrightarrow> of_char (char_of (48 + d :: nat)) = 48 + d"
  by simp

lemma is_digit_char_of: "d < 10 \<Longrightarrow> is_digit (char_of (48 + d :: nat))"
  by (simp add: is_digit_def)

lemma char_of_48: "char_of (48::nat) = CHR ''0''"
proof -
  have "char_of (of_char CHR ''0'' :: nat) = CHR ''0''"
    by (rule char_of_char)
  then show ?thesis by simp
qed

lemma dec_digits: "c \<in> set (dec n) \<Longrightarrow> is_digit c"
proof (induction n arbitrary: c rule: dec.induct)
  case (1 n)
  show ?case
  proof (cases "n < 10")
    case True
    with "1.prems" show ?thesis
      by (simp add: dec.simps [of n] is_digit_char_of)
  next
    case False
    with "1.prems" have "c \<in> set (dec (n div 10)) \<or> c = char_of (48 + n mod 10)"
      by (auto simp: dec.simps [of n])
    then show ?thesis
      using "1.IH" [OF False] is_digit_char_of [of "n mod 10"] by auto
  qed
qed

lemma digits_value_snoc:
  "digits_value (ds @ [c]) = 10 * digits_value ds + (of_char c - 48)"
  by (simp add: digits_value_def)

lemma digits_value_dec: "digits_value (dec n) = n"
proof (induction n rule: dec.induct)
  case (1 n)
  show ?case
  proof (cases "n < 10")
    case True
    then show ?thesis
      by (simp add: dec.simps [of n] digits_value_def)
  next
    case False
    then have "digits_value (dec n) = 10 * digits_value (dec (n div 10)) + n mod 10"
      by (simp add: dec.simps [of n] digits_value_snoc)
    with "1.IH" [OF False] show ?thesis by simp
  qed
qed

lemma dec_Cons:
  "\<exists>c t. dec n = c # t \<and> is_digit c \<and> (0 < n \<longrightarrow> c \<noteq> CHR ''0'')"
proof (induction n rule: dec.induct)
  case (1 n)
  show ?case
  proof (cases "n < 10")
    case True
    have "0 < n \<Longrightarrow> char_of (48 + n) \<noteq> CHR ''0''"
    proof
      assume "0 < n" "char_of (48 + n) = CHR ''0''"
      then have "of_char (char_of (48 + n)) = (of_char CHR ''0'' :: nat)" by simp
      with True \<open>0 < n\<close> show False by simp
    qed
    with True show ?thesis
      by (simp add: dec.simps [of n] is_digit_char_of)
  next
    case False
    then have "0 < n div 10" by simp
    with "1.IH" [OF False] obtain c t where
      "dec (n div 10) = c # t" "is_digit c" "c \<noteq> CHR ''0''" by auto
    with False show ?thesis
      by (simp add: dec.simps [of n])
  qed
qed

lemma takeWhile_digits:
  assumes "\<forall>c \<in> set ds. is_digit c" and "ends_number rest"
  shows "takeWhile is_digit (ds @ rest) = ds" and "dropWhile is_digit (ds @ rest) = rest"
proof -
  have r: "takeWhile is_digit rest = []" "dropWhile is_digit rest = rest"
    using assms(2) by (auto simp: ends_number_def split: list.splits)
  from assms(1) show "takeWhile is_digit (ds @ rest) = ds"
    by (simp add: takeWhile_append2 r)
  from assms(1) show "dropWhile is_digit (ds @ rest) = rest"
    by (simp add: dropWhile_append2 r)
qed

lemma match_integer_dec:
  assumes "ends_number rest"
  shows "match_integer (dec n @ rest) = Some (dec n, rest)"
proof (cases "n = 0")
  case True
  then have "dec n = ''0''" by (simp add: dec.simps [of 0] char_of_48)
  then show ?thesis by (simp add: match_integer_def)
next
  case False
  with dec_Cons [of n] obtain c t where
    d: "dec n = c # t" "is_digit c" "c \<noteq> CHR ''0''" by auto
  have "\<forall>x \<in> set t. is_digit x"
    using dec_digits [of _ n] d(1) by simp
  from takeWhile_digits [OF this assms] d show ?thesis
    by (simp add: match_integer_def)
qed

lemma no_frac_exp:
  "ends_number rest \<Longrightarrow> match_frac rest = None \<and> match_exp rest = None"
  by (auto simp: ends_number_def match_frac_def match_exp_def split: list.splits)

lemma dec_not_minus: "dec n = c # t \<Longrightarrow> c \<noteq> CHR ''-''"
  using dec_Cons [of n] by (auto simp: is_digit_def)

lemma match_number_int_repr:
  assumes "ends_number rest"
  shows "match_number (int_repr i @ rest) = Some (Integer i, rest)"
proof (cases "i < 0")
  case True
  then have "int_repr i @ rest = CHR ''-'' # (dec (nat (- i)) @ rest)"
    by (simp add: int_repr_def)
  with True match_integer_dec [OF assms, of "nat (- i)"] no_frac_exp [OF assms]
  show ?thesis
    by (simp add: match_number_def digits_value_dec)
next
  case False
  obtain c t where d: "dec (nat i) = c # t"
    using dec_Cons [of "nat i"] by auto
  with dec_not_minus have c: "c \<noteq> CHR ''-''" by blast
  have m: "match_integer (c # t @ rest) = Some (c # t, rest)"
    using match_integer_dec [OF assms, of "nat i"] d by simp
  from False have "int_repr i @ rest = c # t @ rest"
    by (simp add: int_repr_def d)
  with False c m no_frac_exp [OF assms] digits_value_dec [of "nat i"] d
  show ?thesis
    by (simp add: match_number_def)
qed

lemma int_repr_Cons:
  "\<exists>c t. int_repr i = c # t \<and> (c = CHR ''-'' \<or> is_digit c)"
  using dec_Cons [of "nat i"] dec_Cons [of "nat (- i)"]
  by (auto simp: int_repr_def)

lemma startswith_Nil [simp]: "startswith s []"
  by (simp add: startswith_def)

lemma startswith_Cons [simp]:
  "startswith (c # s) (p # ps) \<longleftrightarrow> c = p \<and> startswith s ps"
  by (auto simp: startswith_def)

lemma startswith_empty [simp]: "startswith [] (p # ps) = False"
  by (simp add: startswith_def)

lemma scan_once_int:
  assumes "ends_number rest"
  shows "scan_once (int_repr i @ rest) = Inr (JInt i, rest)"
proof -
  obtain c t where ct: "int_repr i = c # t" "c = CHR ''-'' \<or> is_digit c"
    using int_repr_Cons [of i] by auto
  from ct(2) have c: "c \<noteq> DQ" "c \<noteq> CHR ''{''" "c \<noteq> CHR ''[''" "c \<noteq> CHR ''n''"
    "c \<noteq> CHR ''t''" "c \<noteq> CHR ''f''"
    by (auto simp: is_digit_def)
  from match_number_int_repr [OF assms, of i] ct(1)
  have "match_number (c # t @ rest) = Some (Integer i, rest)" by simp
  with c ct(1) show ?thesis by simp
qed

subsection \<open>Whitespace and first characters\<close>

lemma skip_ws_plain [simp]: "\<not> is_ws c \<Longrightarrow> skip_ws (c # t) = c # t"
  by (simp add: skip_ws_def)

lemma skip_ws_Nil [simp]: "skip_ws [] = []"
  by (simp add: skip_ws_def)

lemma skip_ws_space [simp]: "skip_ws (CHR '' '' # s) = skip_ws s"
  by (simp add: skip_ws_def is_ws_def)

lemma skip_ws_newline_indent [simp]: "skip_ws (newline_indent n @ s) = skip_ws s"
proof -
  have "\<forall>c \<in> set (newline_indent n). is_ws c"
    by (auto simp: newline_indent_def is_ws_def)
  then show ?thesis
    by (simp add: skip_ws_def dropWhile_append2)
qed

lemma ends_number_newline_indent [simp]: "ends_number (newline_indent n @ s)"
  by (simp add: ends_number_def newline_indent_def is_digit_def)

lemma ends_number_comma [simp]: "ends_number (CHR '','' # s)"
  by (simp add: ends_number_def is_digit_def)

lemma ends_number_Nil [simp]: "ends_number []"
  by (simp add: ends_number_def)

lemma not_ws [simp]:
  "\<not> is_ws DQ" "\<not> is_ws CHR ''['' " "\<not> is_ws CHR '']''" "\<not> is_ws CHR ''{''"
  "\<not> is_ws CHR ''}''" "\<not> is_ws CHR '',''" "\<not> is_ws CHR '':''" "\<not> is_ws CHR ''n''"
  "\<not> is_ws CHR ''t''" "\<not> is_ws CHR ''f''" "\<not> is_ws CHR ''-''"
  by (simp_all add: is_ws_def)

lemma digit_not_ws: "is_digit c \<Longrightarrow> \<not> is_ws c \<and> c \<noteq> CHR '']''"
  by (auto simp: is_digit_def is_ws_def)

lemma iterencode_Cons:
  "\<exists>c t. iterencode level v = c # t \<and> \<not> is_ws c \<and> c \<noteq> CHR '']''"
proof (cases v)
  case (JInt i)
  with int_repr_Cons [of i] digit_not_ws show ?thesis by auto
qed (auto simp: encode_basestring_ascii_def)

lemma join_Cons: "xs \<noteq> [] \<Longrightarrow> join sep (x # xs) = x @ sep @ join sep xs"
  by (cases xs) simp_all

subsection \<open>Arrays\<close>

lemma JSONArray_items:
  assumes "lst \<noteq> []"
    and "\<And>x r. x \<in> set lst \<Longrightarrow> ends_number r \<Longrightarrow>
           scan_once (iterencode l x @ r) = Inr (x, r)"
  shows "JSONArray vs
           (join (CHR '','' # newline_indent l) (map (iterencode l) lst)
              @ newline_indent l' @ CHR '']'' # rest)
         = Inr (JArr (vs @ lst), rest)"
  using assms
proof (induction lst arbitrary: vs rule: list_nonempty_induct)
  case (single x)
  have "scan_once (iterencode l x @ newline_indent l' @ CHR '']'' # rest)
          = Inr (x, newline_indent l' @ CHR '']'' # rest)"
    by (rule single) simp_all
  then show ?case
    by (subst JSONArray.simps) simp
next
  case (cons x lst)
  let ?sep = "CHR '','' # newline_indent l"
  let ?tail = "join ?sep (map (iterencode l) lst) @ newline_indent l' @ CHR '']'' # rest"
  obtain y ys where lst: "lst = y # ys"
    using cons.hyps by (cases lst) auto
  obtain c t where ct: "iterencode l y = c # t" "\<not> is_ws c"
    using iterencode_Cons [of l y] by auto
  have "join ?sep (map (iterencode l) lst) = c # t @ (if ys = [] then [] else ?sep @ join ?sep (map (iterencode l) ys))"
    using lst ct by (cases ys) simp_all
  then have sk: "skip_ws ?tail = ?tail"
    using ct(2) by simp
  have x: "scan_once (iterencode l x @ CHR '','' # newline_indent l @ ?tail)
             = Inr (x, CHR '','' # newline_indent l @ ?tail)"
    by (rule cons.prems) simp_all
  have ih: "JSONArray (vs @ [x]) ?tail = Inr (JArr ((vs @ [x]) @ lst), rest)"
    by (rule cons.IH) (simp_all add: cons.prems)
  have "join ?sep (map (iterencode l) (x # lst)) @ newline_indent l' @ CHR '']'' # rest
          = iterencode l x @ CHR '','' # newline_indent l @ ?tail"
    using cons.hyps by (simp add: join_Cons)
  then show ?case
    using x ih sk by (subst JSONArray.simps) simp
qed

subsection \<open>Objects\<close>

lemma setitem_new: "k \<notin> fst ` set d \<Longrightarrow> setitem k v d = d @ [(k, v)]"
  by (induction d) auto

lemma dict_distinct: "distinct (map fst (d @ pairs)) \<Longrightarrow> dict d pairs = d @ pairs"
proof (induction pairs arbitrary: d)
  case Nil
  show ?case by simp
next
  case (Cons p pairs)
  obtain k v where p: "p = (k, v)" by (cases p)
  from Cons.prems p have "k \<notin> fst ` set d" by auto
  then have s: "setitem k v d = d @ [(k, v)]" by (rule setitem_new)
  from Cons.prems p have "distinct (map fst ((d @ [(k, v)]) @ pairs))" by simp
  from Cons.IH [OF this] s p show ?case by simp
qed

lemma tl_encode_basestring_ascii [simp]:
  "tl (encode_basestring_ascii k @ s) = tl (encode_basestring_ascii k) @ s"
  by (simp add: encode_basestring_ascii_def)

lemma JSONObject_items:
  assumes "dct \<noteq> []"
    and "\<And>x r. x \<in> set dct \<Longrightarrow> ends_number r \<Longrightarrow>
           scan_once (iterencode l (snd x) @ r) = Inr (snd x, r)"
  shows "JSONObject pairs
           (tl (join (CHR '','' # newline_indent l) (map (item_text l) dct)
                  @ newline_indent l' @ CHR ''}'' # rest))
         = Inr (JObj (dict [] (pairs @ dct)), rest)"
  using assms
proof (induction dct arbitrary: pairs rule: list_nonempty_induct)
  case (single x)
  obtain k v where x: "x = (k, v)" by (cases x)
  obtain c t where ct: "iterencode l v = c # t" "\<not> is_ws c"
    using iterencode_Cons [of l v] by auto
  let ?R = "newline_indent l' @ CHR ''}'' # rest"
  have v: "scan_once (iterencode l v @ ?R) = Inr (v, ?R)"
    using single [of x ?R] x by simp
  have "tl (join (CHR '','' # newline_indent l) (map (item_text l) [x]) @ ?R)
          = tl (encode_basestring_ascii k) @ CHR '':'' # CHR '' '' # iterencode l v @ ?R"
    using x by simp
  moreover have "skip_ws (iterencode l v @ ?R) = iterencode l v @ ?R"
    using ct by simp
  ultimately show ?case
    using v x by (subst JSONObject.simps) (simp add: scanstring_encoded)
next
  case (cons x dct)
  obtain k v where x: "x = (k, v)" by (cases x)
  obtain c t where ct: "iterencode l v = c # t" "\<not> is_ws c"
    using iterencode_Cons [of l v] by auto
  let ?sep = "CHR '','' # newline_indent l"
  let ?tail = "join ?sep (map (item_text l) dct) @ newline_indent l' @ CHR ''}'' # rest"
  obtain y ys where dct: "dct = y # ys"
    using cons.hyps by (cases dct) auto
  obtain k' v' where y: "y = (k', v')" by (cases y)
  have "join ?sep (map (item_text l) dct)
          = item_text l (k', v') @ (if ys = [] then [] else ?sep @ join ?sep (map (item_text l) ys))"
    using dct y by (cases ys) simp_all
  then obtain u where u: "?tail = DQ # u"
    by (simp add: encode_basestring_ascii_def)
  have v: "scan_once (iterencode l v @ CHR '','' # newline_indent l @ ?tail)
             = Inr (v, CHR '','' # newline_indent l @ ?tail)"
    using cons.prems [of x "CHR '','' # newline_indent l @ ?tail"] x by simp
  have ih: "JSONObject (pairs @ [x]) (tl ?tail) = Inr (JObj (dict [] ((pairs @ [x]) @ dct)), rest)"
    by (rule cons.IH) (simp_all add: cons.prems)
  have "tl (join ?sep (map (item_text l) (x # dct)) @ newline_indent l' @ CHR ''}'' # rest)
          = tl (encode_basestring_ascii k) @ CHR '':'' # CHR '' '' # iterencode l v
              @ CHR '','' # newline_indent l @ ?tail"
    using x cons.hyps by (simp add: join_Cons)
  moreover have "skip_ws (iterencode l v @ CHR '','' # newline_indent l @ ?tail)
                   = iterencode l v @ CHR '','' # newline_indent l @ ?tail"
    using ct by simp
  ultimately show ?case
    using v ih u x by (subst JSONObject.simps) (simp add: scanstring_encoded)
qed

subsection \<open>Every value\<close>

lemma scan_once_iterencode:
  "unique_keys v \<Longrightarrow> ends_number rest \<Longrightarrow>
   scan_once (iterencode level v @ rest) = Inr (v, rest)"
proof (induction v arbitrary: level rest)
  case JNull
  show ?case by simp
next
  case (JBool b)
  show ?case by simp
next
  case (JInt i)
  then show ?case by (simp add: scan_once_int)
next
  case (JStr s)
  show ?case
    by (simp add: encode_basestring_ascii_def scanstring_escaped)
next
  case (JArr lst)
  show ?case
  proof (cases "lst = []")
    case True
    then show ?thesis by simp
  next
    case False
    let ?J = "join (CHR '','' # newline_indent (level + 1)) (map (iterencode (level + 1)) lst)
                @ newline_indent level @ CHR '']'' # rest"
    obtain y ys where lst: "lst = y # ys"
      using False by (cases lst) auto
    obtain c t where ct: "iterencode (level + 1) y = c # t" "\<not> is_ws c" "c \<noteq> CHR '']''"
      using iterencode_Cons [of "level + 1" y] by auto
    have "join (CHR '','' # newline_indent (level + 1)) (map (iterencode (level + 1)) lst)
            = c # t @ (if ys = [] then []
                       else (CHR '','' # newline_indent (level + 1))
                            @ join (CHR '','' # newline_indent (level + 1))
                                (map (iterencode (level + 1)) ys))"
      using lst ct by (cases ys) simp_all
    then obtain u where u: "?J = c # u" by simp
    have elems: "\<And>x r. x \<in> set lst \<Longrightarrow> ends_number r \<Longrightarrow>
                   scan_once (iterencode (level + 1) x @ r) = Inr (x, r)"
      using JArr.IH JArr.prems(1) by (simp add: list_all_iff)
    have "JSONArray [] ?J = Inr (JArr ([] @ lst), rest)"
      using False elems by (rule JSONArray_items)
    with u ct False show ?thesis by simp
  qed
next
  case (JObj dct)
  show ?case
  proof (cases "dct = []")
    case True
    then show ?thesis by simp
  next
    case False
    let ?J = "join (CHR '','' # newline_indent (level + 1)) (map (item_text (level + 1)) dct)
                @ newline_indent level @ CHR ''}'' # rest"
    obtain y ys where dct: "dct = y # ys"
      using False by (cases dct) auto
    obtain k' v' where y: "y = (k', v')" by (cases y)
    have "join (CHR '','' # newline_indent (level + 1)) (map (item_text (level + 1)) dct)
            = item_text (level + 1) (k', v')
              @ (if ys = [] then []
                 else (CHR '','' # newline_indent (level + 1))
                      @ join (CHR '','' # newline_indent (level + 1))
                          (map (item_text (level + 1)) ys))"
      using dct y by (cases ys) simp_all
    then obtain u where u: "?J = DQ # u"
      by (simp add: encode_basestring_ascii_def)
    have elems: "\<And>x r. x \<in> set dct \<Longrightarrow> ends_number r \<Longrightarrow>
                   scan_once (iterencode (level + 1) (snd x) @ r) = Inr (snd x, r)"
    proof -
      fix x r
      assume x: "x \<in> set dct" and r: "ends_number r"
      from x JObj.prems(1) have "unique_keys (snd x)"
        by (simp add: list_all_iff)
      moreover have "snd x \<in> Basic_BNFs.snds x"
        by (cases x) simp
      ultimately show "scan_once (iterencode (level + 1) (snd x) @ r) = Inr (snd x, r)"
        using JObj.IH [OF x _ _ r] by blast
    qed
    have "JSONObject [] (tl ?J) = Inr (JObj (dict [] ([] @ dct)), rest)"
      using False elems by (rule JSONObject_items)
    moreover have "dict [] dct = dct"
      using JObj.prems(1) dict_distinct [of "[]" dct] by simp
    ultimately show ?thesis
      using u False by simp
  qed
qed

lemma json_loads_dumps: "unique_keys v \<Longrightarrow> json_loads (json_dumps v) = Inr v"
proof -
  assume v: "unique_keys v"
  obtain c t where ct: "iterencode 0 v = c # t" "\<not> is_ws c"
    using iterencode_Cons [of 0 v] by auto
  have "scan_once (iterencode 0 v @ []) = Inr (v, [])"
    using v by (rule scan_once_iterencode) simp
  with ct show ?thesis
    by (simp add: json_loads_def json_dumps_def)
qed

subsection \<open>What the decoder returns\<close>

lemma setitem_keys: "fst ` set (setitem k v d) = insert k (fst ` set d)"
proof (induction d)
  case Nil
  show ?case by simp
next
  case (Cons p d)
  obtain k' v' where p: "p = (k', v')" by (cases p)
  show ?case
  proof (cases "k' = k")
    case True
    with p show ?thesis by simp
  next
    case False
    with p Cons.IH show ?thesis by (simp add: insert_commute)
  qed
qed

lemma setitem_distinct: "distinct (map fst d) \<Longrightarrow> distinct (map fst (setitem k v d))"
proof (induction d)
  case Nil
  show ?case by simp
next
  case (Cons p d)
  obtain k' v' where p: "p = (k', v')" by (cases p)
  show ?case
  proof (cases "k' = k")
    case True
    with Cons.prems p show ?thesis by simp
  next
    case False
    from Cons have "distinct (map fst (setitem k v d))" by simp
    moreover from Cons.prems p have "k' \<notin> fst ` set d" by simp
    with False have "k' \<notin> fst ` set (setitem k v d)"
      by (simp add: setitem_keys)
    ultimately show ?thesis using p False by simp
  qed
qed

lemma setitem_values: "x \<in> set (setitem k v d) \<Longrightarrow> x = (k, v) \<or> x \<in> set d"
  by (induction d) (auto split: if_splits)

lemma dict_distinct_keys: "distinct (map fst d) \<Longrightarrow> distinct (map fst (dict d pairs))"
proof (induction pairs arbitrary: d)
  case Nil
  then show ?case by simp
next
  case (Cons p pairs)
  obtain k v where p: "p = (k, v)" by (cases p)
  from Cons.prems have "distinct (map fst (setitem k v d))" by (rule setitem_distinct)
  from Cons.IH [OF this] p show ?case by simp
qed

lemma dict_values: "x \<in> set (dict d pairs) \<Longrightarrow> x \<in> set d \<or> x \<in> set pairs"
proof (induction pairs arbitrary: d)
  case Nil
  then show ?case by simp
next
  case (Cons p pairs)
  obtain k v where p: "p = (k, v)" by (cases p)
  from Cons.prems p have "x \<in> set (dict (setitem k v d) pairs)" by simp
  from Cons.IH [OF this] have "x \<in> set (setitem k v d) \<or> x \<in> set pairs" .
  with setitem_values [of x k v d] p show ?case by auto
qed

lemma unique_keys_dict:
  assumes "\<forall>x \<in> set pairs. unique_keys (snd x)"
  shows "unique_keys (JObj (dict [] pairs))"
proof -
  have "distinct (map fst (dict [] pairs))"
    by (rule dict_distinct_keys) simp
  moreover have "unique_keys (snd x)" if "x \<in> set (dict [] pairs)" for x
    using dict_values [OF that] assms by auto
  ultimately show ?thesis by (simp add: list_all_iff)
qed

lemma decoded_unique_keys:
  "scan_once s = Inr (v, rest) \<Longrightarrow> unique_keys v"
  "\<forall>x \<in> set vs. unique_keys x \<Longrightarrow> JSONArray vs s' = Inr (v', rest') \<Longrightarrow> unique_keys v'"
  "\<forall>x \<in> set pairs. unique_keys (snd x) \<Longrightarrow> JSONObject pairs s'' = Inr (v'', rest'')
     \<Longrightarrow> unique_keys v''"
proof (induction s and vs s' and pairs s'' arbitrary: v rest and v' rest' and v'' rest''
       rule: scan_once_JSONArray_JSONObject.induct)
  case 1
  then show ?case by simp
next
  case (2 nextchar s)
  note run = "2.prems" [unfolded scan_once.simps(2)]
  show ?case
  proof (cases "nextchar = DQ")
    case True
    with run show ?thesis
      by (auto split: sum.splits)
  next
    case nq: False
    show ?thesis
    proof (cases "nextchar = CHR ''{''")
      case True
      with run nq obtain c s1 where sk: "skip_ws s = c # s1"
        by (auto split: list.splits)
      show ?thesis
      proof (cases "c = DQ")
        case dq: True
        with run nq True sk have "JSONObject [] s1 = Inr (v, rest)" by simp
        with "2.IH"(1) [OF nq True sk dq] show ?thesis by simp
      next
        case False
        with run nq True sk show ?thesis
          by (auto split: if_splits)
      qed
    next
      case nb: False
      show ?thesis
      proof (cases "nextchar = CHR ''[''")
        case True
        with run nq nb obtain c s1 where sk: "skip_ws s = c # s1"
          by (auto split: list.splits)
        show ?thesis
        proof (cases "c = CHR '']''")
          case True
          with run nq nb \<open>nextchar = CHR ''[''\<close> sk show ?thesis
            by auto
        next
          case False
          with run nq nb True sk have "JSONArray [] (c # s1) = Inr (v, rest)" by simp
          with "2.IH"(2) [OF nq nb True sk False] show ?thesis by simp
        qed
      next
        case na: False
        have plain: "unique_keys v"
          if "match_number (nextchar # s) = Some (n, r)"
            and "(case n of Integer i \<Rightarrow> Inr (JInt i, r) | Float \<Rightarrow> Inl Unmodelled)
                   = Inr (v, rest)" for n r
          using that by (cases n) auto
        show ?thesis
        proof (cases "startswith (nextchar # s) ''null''")
          case True
          with run nq nb na show ?thesis
            by (auto simp del: startswith_Cons startswith_Nil startswith_empty)
        next
          case n1: False
          show ?thesis
          proof (cases "startswith (nextchar # s) ''true''")
            case True
            with run nq nb na n1 show ?thesis
              by (auto simp del: startswith_Cons startswith_Nil startswith_empty)
          next
            case n2: False
            show ?thesis
            proof (cases "startswith (nextchar # s) ''false''")
              case True
              with run nq nb na n1 n2 show ?thesis
                by (auto simp del: startswith_Cons startswith_Nil startswith_empty)
            next
              case n3: False
              with run nq nb na n1 n2
              have m: "(case match_number (nextchar # s) of
                          Some (Integer i, r) \<Rightarrow> Inr (JInt i, r)
                        | Some (Float, r) \<Rightarrow> Inl Unmodelled
                        | None \<Rightarrow>
                            if startswith (nextchar # s) ''NaN''
                               \<or> startswith (nextchar # s) ''Infinity''
                               \<or> startswith (nextchar # s) ''-Infinity''
                            then Inl Unmodelled else Inl JSONDecodeError) = Inr (v, rest)"
                by (simp del: startswith_Cons startswith_Nil startswith_empty)
              show ?thesis
              proof (cases "match_number (nextchar # s)")
                case None
                with m show ?thesis
                  by (simp del: startswith_Cons startswith_Nil startswith_empty split: if_splits)
              next
                case (Some nr)
                obtain n r where nr: "nr = (n, r)" by (cases nr)
                with Some m plain [of n r] show ?thesis
                  by (cases n) simp_all
              qed
            qed
          qed
        qed
      qed
    qed
  qed
next
  case (3 vs s)
  note run = "3.prems"(2) [unfolded JSONArray.simps [of vs s]]
  from run obtain v1 s1 where so: "scan_once s = Inr (v1, s1)"
    by (auto split: sum.splits)
  from "3.IH"(1) [OF so] have u1: "unique_keys v1" .
  from run so obtain c s2 where sk: "skip_ws s1 = c # s2"
    by (auto split: list.splits)
  show ?case
  proof (cases "c = CHR '']''")
    case True
    with run so sk u1 "3.prems"(1) show ?thesis
      by (auto simp: list_all_iff)
  next
    case False
    with run so sk have c: "c = CHR '',''" and
      r: "JSONArray (vs @ [v1]) (skip_ws s2) = Inr (v', rest')"
      by (auto split: if_splits)
    from u1 "3.prems"(1) have "\<forall>x \<in> set (vs @ [v1]). unique_keys x" by simp
    from "3.IH"(2) [OF so refl sk False c this r] show ?thesis .
  qed
next
  case (4 pairs s)
  note run = "4.prems"(2) [unfolded JSONObject.simps [of pairs s]]
  from run obtain key s1 where ss: "scanstring [] s = Inr (key, s1)"
    by (auto split: sum.splits)
  from run ss obtain c s2 where sk: "skip_ws s1 = c # s2"
    by (auto split: list.splits)
  from run ss sk have c: "\<not> c \<noteq> CHR '':''"
    by (auto split: if_splits)
  from run ss sk c obtain v1 s3 where so: "scan_once (skip_ws s2) = Inr (v1, s3)"
    by (auto split: sum.splits)
  from "4.IH"(1) [OF ss refl sk c so] have u1: "unique_keys v1" .
  with "4.prems"(1) have all: "\<forall>x \<in> set (pairs @ [(key, v1)]). unique_keys (snd x)"
    by simp
  from run ss sk c so obtain c' s4 where sk': "skip_ws s3 = c' # s4"
    by (auto split: list.splits)
  show ?case
  proof (cases "c' = CHR ''}''")
    case True
    with run ss sk c so sk' have "v'' = JObj (dict [] (pairs @ [(key, v1)]))"
      by auto
    with unique_keys_dict [OF all] show ?thesis by simp
  next
    case False
    with run ss sk c so sk' have c': "\<not> c' \<noteq> CHR '',''"
      by (auto split: if_splits)
    from run ss sk c so sk' False c' obtain c'' s5 where sk'': "skip_ws s4 = c'' # s5"
      by (auto split: list.splits)
    from run ss sk c so sk' False c' sk'' have dq: "c'' = DQ" and
      r: "JSONObject (pairs @ [(key, v1)]) s5 = Inr (v'', rest'')"
      by (auto split: if_splits)
    from "4.IH"(2) [OF ss refl sk c so refl sk' False c' sk'' dq all r] show ?thesis .
  qed
qed

lemma json_loads_unique_keys: "json_loads s = Inr v \<Longrightarrow> unique_keys v"
  unfolding json_loads_def
  by (auto split: sum.splits if_splits dest: decoded_unique_keys(1))

text \<open>
  So whatever the decoder read is written back and read again as the same value.
\<close>

lemma json_loads_again: "json_loads s = Inr v \<Longrightarrow> json_loads (json_dumps v) = Inr v"
  by (rule json_loads_dumps) (rule json_loads_unique_keys)

section \<open>Reading the catalog\<close>

lemma load_courses_state [simp]: "snd (load_courses st) = st"
  by (simp add: load_courses_def split: option.splits)






text \<open>
  C8. Reading leaves the state as it was, so a second read, with no write in between,
  returns what the first returned.
\<close>

theorem load_courses_twice:
  "snd (load_courses st) = st
   \<and> fst (load_courses (snd (load_courses st))) = fst (load_courses st)"
  by simp

section \<open>Appending a course and reading it back\<close>

lemma is_course_unique_keys: "is_course x \<Longrightarrow> unique_keys x"
proof (cases x)
  case (JObj dct)
  assume c: "is_course x"
  have "unique_keys (snd item)" if "item \<in> set dct" for item
  proof -
    from that c JObj have "is_str (snd item)" by (simp add: list_all_iff)
    then show ?thesis by (cases "snd item") auto
  qed
  with c JObj show ?thesis by (simp add: list_all_iff)
qed auto

lemma save_courses_list:
  assumes "fst (load_courses st) = Inr (JArr old)"
  shows "save_courses c st
           = (Inr (), st\<lparr>course_file := Some (json_dumps (JArr (old @ [c])))\<rparr>)"
proof -
  from assms have "load_courses st = (Inr (JArr old), st)"
    by (metis load_courses_state prod.collapse)
  then show ?thesis by (simp add: save_courses_def)
qed

lemma load_after_dump:
  "unique_keys v \<Longrightarrow>
   load_courses (st\<lparr>course_file := Some (json_dumps v)\<rparr>)
     = (Inr v, st\<lparr>course_file := Some (json_dumps v)\<rparr>)"
  by (simp add: load_courses_def json_loads_dumps)

lemma loaded_unique_keys: "fst (load_courses st) = Inr v \<Longrightarrow> unique_keys v"
  by (auto simp: load_courses_def json_loads_unique_keys split: option.splits)

text \<open>
  Appending to whatever list the file held, and reading it back: no shape is needed of the
  elements already stored.
\<close>

lemma save_then_load_any:
  assumes "fst (load_courses st) = Inr (JArr old)" and "unique_keys c"
  shows "save_courses c st
           = (Inr (), st\<lparr>course_file := Some (json_dumps (JArr (old @ [c])))\<rparr>)"
    and "load_courses (st\<lparr>course_file := Some (json_dumps (JArr (old @ [c])))\<rparr>)
           = (Inr (JArr (old @ [c])), st\<lparr>course_file := Some (json_dumps (JArr (old @ [c])))\<rparr>)"
proof -
  show "save_courses c st
          = (Inr (), st\<lparr>course_file := Some (json_dumps (JArr (old @ [c])))\<rparr>)"
    using assms(1) by (rule save_courses_list)
  from assms(1) have "unique_keys (JArr old)" by (rule loaded_unique_keys)
  with assms(2) have "unique_keys (JArr (old @ [c]))" by simp
  then show "load_courses (st\<lparr>course_file := Some (json_dumps (JArr (old @ [c])))\<rparr>)
          = (Inr (JArr (old @ [c])), st\<lparr>course_file := Some (json_dumps (JArr (old @ [c])))\<rparr>)"
    by (rule load_after_dump)
qed



section \<open>Looking a course up by its code\<close>

lemma code_field: "''code'' \<in> set course_fields"
  by (simp add: course_fields_def)

lemma is_course_getitem:
  "is_course x \<Longrightarrow> \<exists>s. getitem x ''code'' = Inr (JStr s)"
proof (cases x)
  case (JObj dct)
  assume "is_course x"
  with JObj have d: "distinct (map fst dct)" and k: "set (map fst dct) = set course_fields"
    and v: "list_all (\<lambda>item. is_str (snd item)) dct"
    by simp_all
  from k code_field have "''code'' \<in> set (map fst dct)" by blast
  then obtain v where i: "(''code'', v) \<in> set dct" by auto
  with d have m: "map_of dct ''code'' = Some v" by simp
  from i v have "is_str v" by (auto simp: list_all_iff)
  then obtain s where "v = JStr s" by (cases v) auto
  with m JObj show ?thesis by simp
qed simp_all

lemma is_course_truthy: "is_course x \<Longrightarrow> truthy x"
proof (cases x)
  case (JObj dct)
  assume "is_course x"
  with JObj have "set (map fst dct) = set course_fields" by simp
  with code_field have "dct \<noteq> []" by auto
  with JObj show ?thesis by simp
qed simp_all

lemma next_course_find:
  "list_all is_course S \<Longrightarrow>
   next_course S c =
     (case find (\<lambda>x. getitem x ''code'' = Inr (JStr c)) S of
        None \<Rightarrow> Inr JNull | Some y \<Rightarrow> Inr y)"
proof (induction S)
  case Nil
  show ?case by simp
next
  case (Cons a S)
  from Cons.prems(1) obtain s where s: "getitem a ''code'' = Inr (JStr s)"
    using is_course_getitem by auto
  with Cons show ?case by auto
qed

text \<open>
  C4. In a sequence \<open>S\<close> of courses that holds a course \<open>x\<close> with code \<open>c\<close>, the lookup
  of \<open>c\<close> returns the first element of \<open>S\<close> whose code is \<open>c\<close>: \<open>S\<close> splits into elements
  with another code, the element returned, and the rest, which may hold further courses
  with code \<open>c\<close>. Codes are compared as strings, character by character.
\<close>

theorem find_by_code_first:
  assumes "list_all is_course S" and "x \<in> set S" and "getitem x ''code'' = Inr (JStr c)"
  shows "\<exists>pre y post. S = pre @ y # post
     \<and> (\<forall>z \<in> set pre. getitem z ''code'' \<noteq> Inr (JStr c))
     \<and> getitem y ''code'' = Inr (JStr c)
     \<and> next_course S c = Inr y"
  using assms
proof (induction S)
  case Nil
  then show ?case by simp
next
  case (Cons a S)
  from Cons.prems(1) obtain s where s: "getitem a ''code'' = Inr (JStr s)"
    using is_course_getitem by auto
  show ?case
  proof (cases "s = c")
    case True
    with s have "a # S = [] @ a # S \<and> (\<forall>z \<in> set []. getitem z ''code'' \<noteq> Inr (JStr c))
      \<and> getitem a ''code'' = Inr (JStr c) \<and> next_course (a # S) c = Inr a"
      by simp
    then show ?thesis by blast
  next
    case False
    with s Cons.prems have "x \<in> set S" by auto
    with Cons obtain pre y post where
      p: "S = pre @ y # post" "\<forall>z \<in> set pre. getitem z ''code'' \<noteq> Inr (JStr c)"
         "getitem y ''code'' = Inr (JStr c)" "next_course S c = Inr y"
      by auto
    from p s False have "a # S = (a # pre) @ y # post
      \<and> (\<forall>z \<in> set (a # pre). getitem z ''code'' \<noteq> Inr (JStr c))
      \<and> getitem y ''code'' = Inr (JStr c) \<and> next_course (a # S) c = Inr y"
      by simp
    then show ?thesis by blast
  qed
qed

theorem find_by_code_first_witness:
  "list_all is_course
     [sample_course ''MA101'' ''Algebra'', sample_course ''CS203'' ''Systems'',
      sample_course ''CS203'' ''Duplicate'']
   \<and> sample_course ''CS203'' ''Duplicate''
       \<in> set [sample_course ''MA101'' ''Algebra'', sample_course ''CS203'' ''Systems'',
              sample_course ''CS203'' ''Duplicate'']
   \<and> next_course
        [sample_course ''MA101'' ''Algebra'', sample_course ''CS203'' ''Systems'',
         sample_course ''CS203'' ''Duplicate''] ''CS203''
       = Inr (sample_course ''CS203'' ''Systems'')"
  using find_by_code_first
    [of "[sample_course ''MA101'' ''Algebra'', sample_course ''CS203'' ''Systems'',
          sample_course ''CS203'' ''Duplicate'']"
        "sample_course ''CS203'' ''Duplicate''" "''CS203''"]
  by simp

text \<open>
  C5. In a sequence of courses none of which has code \<open>c\<close>, the lookup of \<open>c\<close> finds
  nothing: it returns \<^verbatim>\<open>None\<close>, the default of \<^verbatim>\<open>next\<close>.
\<close>

theorem find_by_code_absent:
  assumes "list_all is_course S" and "\<forall>x \<in> set S. getitem x ''code'' \<noteq> Inr (JStr c)"
  shows "next_course S c = Inr JNull"
  using assms
proof (induction S)
  case Nil
  show ?case by simp
next
  case (Cons x S)
  from Cons.prems(1) obtain s where "getitem x ''code'' = Inr (JStr s)"
    using is_course_getitem by auto
  with Cons show ?case by auto
qed

theorem find_by_code_absent_witness:
  "list_all is_course [sample_course ''MA101'' ''Algebra'', sample_course ''CS203'' ''Systems'']
   \<and> next_course [sample_course ''MA101'' ''Algebra'', sample_course ''CS203'' ''Systems'']
        ''ZZ999'' = Inr JNull"
  using find_by_code_absent
    [of "[sample_course ''MA101'' ''Algebra'', sample_course ''CS203'' ''Systems'']" "''ZZ999''"]
  by simp

section \<open>The course details page\<close>

text \<open>
  C7. When the stored catalog is a sequence of courses: if none has the requested code,
  the handler flashes \<^verbatim>\<open>No course found with code '<code>'.\<close> in category \<^verbatim>\<open>error\<close> and
  answers with a redirect to the catalog page; otherwise it renders
  \<^verbatim>\<open>course_details.html\<close> with the first course that has the code, and flashes nothing.
\<close>

theorem course_details_outcome:
  assumes "fst (load_courses st) = Inr (JArr S)" and "list_all is_course S"
  shows "course_details code st =
     (case find (\<lambda>x. getitem x ''code'' = Inr (JStr code)) S of
        None \<Rightarrow>
          (Inr (Redirect ''/catalog''),
           st\<lparr>flashes := flashes st
                 @ [(''No course found with code '' @ [SQ] @ code @ [SQ] @ ''.'', ''error'')]\<rparr>)
      | Some course \<Rightarrow>
          (Inr (Render ''course_details.html'' [(''course'', course)]), st))"
proof -
  from assms(1) have l: "load_courses st = (Inr (JArr S), st)"
    by (metis load_courses_state prod.collapse)
  show ?thesis
  proof (cases "find (\<lambda>x. getitem x ''code'' = Inr (JStr code)) S")
    case None
    with assms(2) have "next_course S code = Inr JNull"
      by (simp add: next_course_find)
    with l None show ?thesis
      by (simp add: course_details_def flash_def url_for_def)
  next
    case (Some y)
    with assms(2) have n: "next_course S code = Inr y"
      by (simp add: next_course_find)
    from Some have "y \<in> set S"
      by (auto simp: find_Some_iff)
    with assms(2) have "truthy y"
      by (auto simp: list_all_iff is_course_truthy)
    with l n Some show ?thesis
      by (simp add: course_details_def)
  qed
qed

theorem course_details_outcome_witness:
  "course_details ''ZZ999''
     \<lparr>course_file = Some (json_dumps (JArr [sample_course ''MA101'' ''Algebra'',
        sample_course ''CS203'' ''Systems'', sample_course ''CS203'' ''Duplicate''])),
      flashes = []\<rparr>
     = (Inr (Redirect ''/catalog''),
        \<lparr>course_file = Some (json_dumps (JArr [sample_course ''MA101'' ''Algebra'',
           sample_course ''CS203'' ''Systems'', sample_course ''CS203'' ''Duplicate''])),
         flashes = [(''No course found with code '' @ [SQ] @ ''ZZ999'' @ [SQ] @ ''.'', ''error'')]\<rparr>)
   \<and> course_details ''CS203''
     \<lparr>course_file = Some (json_dumps (JArr [sample_course ''MA101'' ''Algebra'',
        sample_course ''CS203'' ''Systems'', sample_course ''CS203'' ''Duplicate''])),
      flashes = []\<rparr>
     = (Inr (Render ''course_details.html'' [(''course'', sample_course ''CS203'' ''Systems'')]),
        \<lparr>course_file = Some (json_dumps (JArr [sample_course ''MA101'' ''Algebra'',
           sample_course ''CS203'' ''Systems'', sample_course ''CS203'' ''Duplicate''])),
         flashes = []\<rparr>)"
proof -
  let ?S = "[sample_course ''MA101'' ''Algebra'', sample_course ''CS203'' ''Systems'',
             sample_course ''CS203'' ''Duplicate'']"
  let ?st = "\<lparr>course_file = Some (json_dumps (JArr ?S)), flashes = []\<rparr>"
  have "unique_keys (JArr ?S)"
    by (simp add: is_course_unique_keys)
  then have l: "fst (load_courses ?st) = Inr (JArr ?S)"
    by (simp add: load_courses_def json_loads_dumps)
  have c: "list_all is_course ?S" by simp
  from course_details_outcome [OF l c, of "''ZZ999''"]
    course_details_outcome [OF l c, of "''CS203''"]
  show ?thesis by simp
qed

section \<open>Submitting the add-course form\<close>

lemma build_course_missing:
  "\<exists>k \<in> set keys. form k = None \<Longrightarrow>
   build_course form keys = Inl (KeyError (hd (filter (\<lambda>k. form k = None) keys)))"
proof (induction keys)
  case Nil
  then show ?case by simp
next
  case (Cons a keys)
  show ?case
  proof (cases "form a")
    case None
    then show ?thesis by simp
  next
    case (Some v)
    with Cons.prems have "\<exists>k \<in> set keys. form k = None" by auto
    from Cons.IH [OF this] Some show ?thesis by simp
  qed
qed

text \<open>
  C9. A submission that lacks one of the nine keys makes the handler raise the
  \<^verbatim>\<open>KeyError\<close> of the first absent key, while the draft is built: the result is that error,
  no redirect, and the state comes back as it was, with no flash message added and the
  course file untouched.
\<close>

theorem add_course_absent_key:
  assumes "\<exists>k \<in> set course_fields. form k = None"
  shows "add_course ''POST'' form st
           = (Inl (KeyError (hd (filter (\<lambda>k. form k = None) course_fields))), st)"
  using build_course_missing [OF assms] by (simp add: add_course_def)

theorem add_course_absent_key_witness:
  "(\<exists>k \<in> set course_fields. partial_form k = None)
   \<and> add_course ''POST'' partial_form \<lparr>course_file = None, flashes = []\<rparr>
       = (Inl (KeyError ''semester''), \<lparr>course_file = None, flashes = []\<rparr>)"
  using add_course_absent_key
    [of partial_form "\<lparr>course_file = None, flashes = []\<rparr>"]
  by (simp add: course_fields_def partial_form_def)



section \<open>Whitespace in a required field\<close>








end
